theory Spec2Isabelle
  imports Complex_Main "HOL-Library.Multiset" "HOL-Library.Sublist"
begin

section \<open>Data model: the Working Table\<close>

text \<open>
  \<^verbatim>\<open>app.py\<close> keeps one pandas DataFrame, \<^verbatim>\<open>st.session_state.cleaned_df\<close>, and replaces it
  by the result of each cleaning step. A DataFrame is a sequence of named, typed columns
  of one common length. Two kinds of column are modelled: numeric columns (dtype int64 or
  float64, the ones \<^verbatim>\<open>select_dtypes(include=["float", "int"])\<close> selects) and object columns
  (text). A numeric entry is a number or NaN; numbers are exact rationals, so the rounding
  of float64 arithmetic is outside the model. An object entry is a string or missing.
  The row index of the DataFrame is not modelled: no step of the program reads it and the
  export is written with \<^verbatim>\<open>index=False\<close>.
\<close>

datatype fnum = Val rat | NaN

datatype column = NumCol "fnum list" | ObjCol "string option list"

type_synonym table = "(string \<times> column) list"

datatype cell = NumCell fnum | ObjCell "string option"

datatype error = KeyError | TypeError | IndexError | ValueError

text \<open>
  The order in which numpy sorts a float array: numbers by value, every NaN after every
  number.
\<close>

instantiation fnum :: linorder
begin

fun less_eq_fnum :: "fnum \<Rightarrow> fnum \<Rightarrow> bool" where
  "less_eq_fnum (Val x) (Val y) = (x \<le> y)"
| "less_eq_fnum (Val x) NaN = True"
| "less_eq_fnum NaN (Val y) = False"
| "less_eq_fnum NaN NaN = True"

fun less_fnum :: "fnum \<Rightarrow> fnum \<Rightarrow> bool" where
  "less_fnum (Val x) (Val y) = (x < y)"
| "less_fnum (Val x) NaN = True"
| "less_fnum NaN (Val y) = False"
| "less_fnum NaN NaN = False"

instance
proof
  fix x y z :: fnum
  show "(x < y) = (x \<le> y \<and> \<not> y \<le> x)"
    by (cases x; cases y) auto
  show "x \<le> x"
    by (cases x) auto
  show "x \<le> y \<Longrightarrow> y \<le> z \<Longrightarrow> x \<le> z"
    by (cases x; cases y; cases z) auto
  show "x \<le> y \<Longrightarrow> y \<le> x \<Longrightarrow> x = y"
    by (cases x; cases y) auto
  show "x \<le> y \<or> y \<le> x"
    by (cases x; cases y) auto
qed

end

fun col_cells :: "column \<Rightarrow> cell list" where
  "col_cells (NumCol xs) = map NumCell xs"
| "col_cells (ObjCol xs) = map ObjCell xs"

definition col_len :: "column \<Rightarrow> nat" where
  "col_len c = length (col_cells c)"

text \<open>\<^verbatim>\<open>pd.isnull\<close> on one entry.\<close>

fun is_null :: "cell \<Rightarrow> bool" where
  "is_null (NumCell NaN) = True"
| "is_null (NumCell (Val x)) = False"
| "is_null (ObjCell None) = True"
| "is_null (ObjCell (Some s)) = False"

definition columns :: "table \<Rightarrow> string list" where
  "columns T = map fst T"

text \<open>\<^verbatim>\<open>len(df)\<close>: the common length of the columns.\<close>

definition nrows :: "table \<Rightarrow> nat" where
  "nrows T = (case T of [] \<Rightarrow> 0 | (nm, c) # cs \<Rightarrow> col_len c)"

text \<open>Every DataFrame has columns of one length.\<close>

definition rectangular :: "table \<Rightarrow> bool" where
  "rectangular T = list_all (\<lambda>(nm, c). col_len c = nrows T) T"

text \<open>Row \<open>i\<close> of the table: the entries at position \<open>i\<close>, in column order.\<close>

definition row_at :: "table \<Rightarrow> nat \<Rightarrow> cell list" where
  "row_at T i = map (\<lambda>(nm, c). col_cells c ! i) T"

definition rows_of :: "table \<Rightarrow> cell list list" where
  "rows_of T = map (row_at T) [0..<nrows T]"

text \<open>The entry of a row under a column name, as \<^verbatim>\<open>row[name]\<close>.\<close>

definition row_get :: "table \<Rightarrow> cell list \<Rightarrow> string \<Rightarrow> cell option" where
  "row_get T r nm = map_of (zip (columns T) r) nm"

section \<open>Boolean-mask row selection\<close>

text \<open>
  \<^verbatim>\<open>df[mask]\<close> with a boolean mask keeps the rows at the positions where the mask is True,
  in their order, in every column.
\<close>

definition keep_idx :: "bool list \<Rightarrow> nat list" where
  "keep_idx m = filter (\<lambda>i. m ! i) [0..<length m]"

definition select :: "bool list \<Rightarrow> 'a list \<Rightarrow> 'a list" where
  "select m xs = map ((!) xs) (keep_idx m)"

fun col_select :: "bool list \<Rightarrow> column \<Rightarrow> column" where
  "col_select m (NumCol xs) = NumCol (select m xs)"
| "col_select m (ObjCol xs) = ObjCol (select m xs)"

definition mask_rows :: "bool list \<Rightarrow> table \<Rightarrow> table" where
  "mask_rows m T = map (\<lambda>(nm, c). (nm, col_select m c)) T"

section \<open>Missing-value drop (app.py lines 75-79)\<close>

text \<open>
  \<^verbatim>\<open>df.dropna(subset=labels)\<close>: a label of \<open>labels\<close> that is not a column raises KeyError;
  otherwise the rows that are null in none of the columns of \<open>labels\<close> are kept.
\<close>

definition notnull_at :: "table \<Rightarrow> nat \<Rightarrow> string \<Rightarrow> bool" where
  "notnull_at T i nm =
     (case map_of T nm of None \<Rightarrow> False | Some c \<Rightarrow> \<not> is_null (col_cells c ! i))"

definition dropna_mask :: "table \<Rightarrow> string list \<Rightarrow> bool list" where
  "dropna_mask T labels = map (\<lambda>i. list_all (notnull_at T i) labels) [0..<nrows T]"

definition dropna :: "table \<Rightarrow> string list \<Rightarrow> error + table" where
  "dropna T labels =
     (if list_ex (\<lambda>nm. nm \<notin> set (columns T)) labels then Inl KeyError
      else Inr (mask_rows (dropna_mask T labels) T))"

text \<open>
  The step of the page: when the checkbox is ticked and the multiselect is not empty,
  the Working Table is replaced by the result of \<^verbatim>\<open>dropna\<close>; otherwise it stays.
\<close>

definition drop_missing_step :: "bool \<Rightarrow> string list \<Rightarrow> table \<Rightarrow> error + table" where
  "drop_missing_step enabled columns_to_drop_missing T =
     (if enabled \<and> columns_to_drop_missing \<noteq> [] then dropna T columns_to_drop_missing
      else Inr T)"

text \<open>The claim about a row: its entry under a column name exists and is not null.\<close>

definition nonnull_in :: "table \<Rightarrow> cell list \<Rightarrow> string \<Rightarrow> bool" where
  "nonnull_in T r nm = (case row_get T r nm of None \<Rightarrow> False | Some v \<Rightarrow> \<not> is_null v)"

section \<open>Winsorize (app.py lines 119-123)\<close>

text \<open>
  \<^verbatim>\<open>scipy.stats.mstats.winsorize(a, limits=[lo, up])\<close> with the defaults
  \<^verbatim>\<open>inclusive=(True, True)\<close>, \<^verbatim>\<open>axis=None\<close>, \<^verbatim>\<open>nan_policy='propagate'\<close>, on a one-dimensional
  array without mask:
  \<^verbatim>\<open>
  n = a.count()
  idx = a.argsort()
  if low_limit:
      lowidx = int(low_limit * n)
      a[idx[:lowidx]] = a[idx[lowidx]]
  if up_limit is not None:
      upidx = n - int(n * up_limit)
      a[idx[upidx:]] = a[idx[upidx - 1]]
  return a
  \<close>
  after the check that both limits lie in [0, 1] (ValueError otherwise). \<^verbatim>\<open>argsort\<close> puts NaN
  last. numpy's default sort is not stable; the model sorts stably, and the result does
  not depend on how ties are broken (lemma \<open>winsorize_clip\<close>).
\<close>

definition argsort :: "fnum list \<Rightarrow> nat list" where
  "argsort a = map snd (sort_key fst (zip a [0..<length a]))"

text \<open>\<^verbatim>\<open>xs[i]\<close> for a Python integer \<open>i\<close>: negative indices count from the end.\<close>

definition py_index :: "'a list \<Rightarrow> int \<Rightarrow> error + 'a" where
  "py_index xs i =
     (if 0 \<le> i \<and> i < int (length xs) then Inr (xs ! nat i)
      else if - int (length xs) \<le> i \<and> i < 0 then Inr (xs ! nat (int (length xs) + i))
      else Inl IndexError)"

text \<open>\<^verbatim>\<open>a[js] = v\<close> for an index array \<open>js\<close> of positions of \<open>a\<close>.\<close>

definition put :: "'a list \<Rightarrow> nat list \<Rightarrow> 'a \<Rightarrow> 'a list" where
  "put a js v = fold (\<lambda>j b. b[j := v]) js a"

definition winsorize :: "fnum list \<Rightarrow> rat \<Rightarrow> rat \<Rightarrow> error + fnum list" where
  "winsorize a lolim uplim =
     (if lolim > 1 \<or> lolim < 0 \<or> uplim > 1 \<or> uplim < 0 then Inl ValueError
      else
        let n = length a;
            idx = argsort a;
            low = (if lolim \<noteq> 0
                   then (let lowidx = nat \<lfloor>lolim * of_nat n\<rfloor>
                         in case py_index idx (int lowidx) of
                              Inl e \<Rightarrow> Inl e
                            | Inr j \<Rightarrow> Inr (put a (take lowidx idx) (a ! j)))
                   else Inr a)
        in case low of
             Inl e \<Rightarrow> Inl e
           | Inr a1 \<Rightarrow>
               (let upidx = n - nat \<lfloor>of_nat n * uplim\<rfloor>
                in case py_index idx (int upidx - 1) of
                     Inl e \<Rightarrow> Inl e
                   | Inr j \<Rightarrow> Inr (put a1 (drop upidx idx) (a1 ! j))))"

text \<open>\<^verbatim>\<open>df.select_dtypes(include=["float", "int"]).columns\<close>\<close>

definition numeric_columns :: "table \<Rightarrow> string list" where
  "numeric_columns T = map fst (filter (\<lambda>(nm, c). case c of NumCol xs \<Rightarrow> True | ObjCol ys \<Rightarrow> False) T)"

text \<open>\<^verbatim>\<open>df[col] = values\<close> for an existing column.\<close>

definition set_column :: "table \<Rightarrow> string \<Rightarrow> column \<Rightarrow> table" where
  "set_column T col c = map (\<lambda>(nm, old). if nm = col then (nm, c) else (nm, old)) T"

text \<open>
  The loop \<^verbatim>\<open>for col in ...: cleaned_df[col] = winsorize(cleaned_df[col], limits=[0.05, 0.05])\<close>.
  An exception of \<^verbatim>\<open>winsorize\<close> ends the run.
\<close>

fun winsorize_loop :: "string list \<Rightarrow> table \<Rightarrow> error + table" where
  "winsorize_loop [] T = Inr T"
| "winsorize_loop (col # cols) T =
     (case map_of T col of
        Some (NumCol xs) \<Rightarrow>
          (case winsorize xs (1/20) (1/20) of
             Inl e \<Rightarrow> Inl e
           | Inr ys \<Rightarrow> winsorize_loop cols (set_column T col (NumCol ys)))
      | Some (ObjCol zs) \<Rightarrow> Inl TypeError
      | None \<Rightarrow> Inl KeyError)"

definition winsorize_table :: "table \<Rightarrow> error + table" where
  "winsorize_table T = winsorize_loop (numeric_columns T) T"

text \<open>
  What the specification says of winsorize, with the percentile values read as scipy
  computes them: for \<open>n\<close> entries sorted with NaN last, the low value is the entry at
  position \<open>n div 20\<close> and the high value the entry at position \<open>n - 1 - n div 20\<close>;
  every entry is clipped to the interval between them.
\<close>

definition low_value :: "fnum list \<Rightarrow> fnum" where
  "low_value xs = sort xs ! (length xs div 20)"

definition high_value :: "fnum list \<Rightarrow> fnum" where
  "high_value xs = sort xs ! (length xs - 1 - length xs div 20)"

definition clip :: "fnum \<Rightarrow> fnum \<Rightarrow> fnum \<Rightarrow> fnum" where
  "clip lo hi x = min hi (max lo x)"

definition clip_column :: "column \<Rightarrow> column" where
  "clip_column c =
     (case c of
        NumCol xs \<Rightarrow> NumCol (map (clip (low_value xs) (high_value xs)) xs)
      | ObjCol ys \<Rightarrow> ObjCol ys)"

section \<open>IQR removal (app.py lines 124-132)\<close>

text \<open>
  IEEE comparison and arithmetic on entries: a comparison with NaN is False, arithmetic
  with NaN is NaN.
\<close>

fun np_lt :: "fnum \<Rightarrow> fnum \<Rightarrow> bool" where
  "np_lt (Val x) (Val y) = (x < y)"
| "np_lt x y = False"

fun np_add :: "fnum \<Rightarrow> fnum \<Rightarrow> fnum" where
  "np_add (Val x) (Val y) = Val (x + y)"
| "np_add x y = NaN"

fun np_sub :: "fnum \<Rightarrow> fnum \<Rightarrow> fnum" where
  "np_sub (Val x) (Val y) = Val (x - y)"
| "np_sub x y = NaN"

fun np_scale :: "rat \<Rightarrow> fnum \<Rightarrow> fnum" where
  "np_scale k (Val x) = Val (k * x)"
| "np_scale k NaN = NaN"

fun finite_vals :: "fnum list \<Rightarrow> rat list" where
  "finite_vals [] = []"
| "finite_vals (Val v # xs) = v # finite_vals xs"
| "finite_vals (NaN # xs) = finite_vals xs"

text \<open>
  \<^verbatim>\<open>Series.quantile(q)\<close> with the default linear interpolation: NaN is skipped; for \<open>m\<close>
  values sorted, the result lies at the fractional position \<open>q * (m - 1)\<close> between its two
  neighbours; without values it is NaN.
\<close>

definition quantile :: "rat \<Rightarrow> fnum list \<Rightarrow> fnum" where
  "quantile q xs =
     (let vs = sort (finite_vals xs); m = length vs
      in if m = 0 then NaN
         else let pos = q * of_nat (m - 1);
                  lo = nat \<lfloor>pos\<rfloor>;
                  hi = min (lo + 1) (m - 1);
                  frac = pos - of_nat lo
              in Val (vs ! lo + (vs ! hi - vs ! lo) * frac))"

type_synonym series = "(string \<times> fnum) list"

text \<open>
  \<^verbatim>\<open>df.quantile(q)\<close>: one quantile per column, labelled by the column name. A column of
  text makes pandas (from version 2.0, where \<^verbatim>\<open>numeric_only\<close> defaults to False) raise
  TypeError.
\<close>

definition is_object :: "column \<Rightarrow> bool" where
  "is_object c = (case c of NumCol xs \<Rightarrow> False | ObjCol ys \<Rightarrow> True)"

definition column_quantiles :: "rat \<Rightarrow> table \<Rightarrow> series" where
  "column_quantiles q T =
     map (\<lambda>(nm, c). (nm, case c of NumCol xs \<Rightarrow> quantile q xs | ObjCol ys \<Rightarrow> NaN)) T"

definition df_quantile :: "rat \<Rightarrow> table \<Rightarrow> error + series" where
  "df_quantile q T =
     (if list_ex (\<lambda>(nm, c). is_object c) T then Inl TypeError
      else Inr (column_quantiles q T))"

text \<open>Label-aligned access and arithmetic of Series; a missing label gives NaN.\<close>

definition at_label :: "series \<Rightarrow> string \<Rightarrow> fnum" where
  "at_label s nm = (case map_of s nm of None \<Rightarrow> NaN | Some v \<Rightarrow> v)"

definition series_sub :: "series \<Rightarrow> series \<Rightarrow> series" where
  "series_sub a b = map (\<lambda>(nm, v). (nm, np_sub v (at_label b nm))) a"

definition series_add :: "series \<Rightarrow> series \<Rightarrow> series" where
  "series_add a b = map (\<lambda>(nm, v). (nm, np_add v (at_label b nm))) a"

definition series_scale :: "rat \<Rightarrow> series \<Rightarrow> series" where
  "series_scale k a = map (\<lambda>(nm, v). (nm, np_scale k v)) a"

text \<open>
  \<^verbatim>\<open>df < s\<close> and \<^verbatim>\<open>df > s\<close> for a Series \<open>s\<close> labelled by column names: every entry of a
  column is compared with the value of \<open>s\<close> at the column's name. The frames compared here
  have passed \<^verbatim>\<open>df.quantile\<close>, so they hold no object column; for totality such a column
  compares False.
\<close>

definition df_lt :: "table \<Rightarrow> series \<Rightarrow> (string \<times> bool list) list" where
  "df_lt T s = map (\<lambda>(nm, c). (nm, case c of
       NumCol xs \<Rightarrow> map (\<lambda>x. np_lt x (at_label s nm)) xs
     | ObjCol ys \<Rightarrow> map (\<lambda>y. False) ys)) T"

definition df_gt :: "table \<Rightarrow> series \<Rightarrow> (string \<times> bool list) list" where
  "df_gt T s = map (\<lambda>(nm, c). (nm, case c of
       NumCol xs \<Rightarrow> map (\<lambda>x. np_lt (at_label s nm) x) xs
     | ObjCol ys \<Rightarrow> map (\<lambda>y. False) ys)) T"

text \<open>\<^verbatim>\<open>A | B\<close> on two boolean frames with the same columns.\<close>

definition df_or :: "(string \<times> bool list) list \<Rightarrow> (string \<times> bool list) list \<Rightarrow> (string \<times> bool list) list" where
  "df_or A B = map (\<lambda>((nm, xs), (nm', ys)). (nm, map (\<lambda>(x, y). x \<or> y) (zip xs ys))) (zip A B)"

text \<open>\<^verbatim>\<open>M.any(axis=1)\<close> on a boolean frame of \<open>n\<close> rows.\<close>

definition any_axis1 :: "(string \<times> bool list) list \<Rightarrow> nat \<Rightarrow> bool list" where
  "any_axis1 M n = map (\<lambda>i. list_ex (\<lambda>(nm, bs). bs ! i) M) [0..<n]"

definition is_outlier :: "table \<Rightarrow> series \<Rightarrow> series \<Rightarrow> (string \<times> bool list) list" where
  "is_outlier T Q1 Q3 =
     (let IQR = series_sub Q3 Q1
      in df_or (df_lt T (series_sub Q1 (series_scale (3/2) IQR)))
               (df_gt T (series_add Q3 (series_scale (3/2) IQR))))"

definition iqr_remove :: "table \<Rightarrow> error + table" where
  "iqr_remove T =
     (case df_quantile (1/4) T of
        Inl e \<Rightarrow> Inl e
      | Inr Q1 \<Rightarrow>
          (case df_quantile (3/4) T of
             Inl e \<Rightarrow> Inl e
           | Inr Q3 \<Rightarrow>
               Inr (mask_rows (map Not (any_axis1 (is_outlier T Q1 Q3) (nrows T))) T)))"

text \<open>
  The threshold rule of the specification, on one entry of a numeric column with entries
  \<open>xs\<close>: the entry is below Q1 - 1.5 IQR or above Q3 + 1.5 IQR, with Q1 and Q3 the 25th
  and 75th percentiles of \<open>xs\<close> and IQR = Q3 - Q1. A row is flagged when the rule holds for
  its entry in some column.
\<close>

definition out_of_fence :: "column \<Rightarrow> cell \<Rightarrow> bool" where
  "out_of_fence c v =
     (case (c, v) of
        (NumCol xs, NumCell (Val x)) \<Rightarrow>
          (case (quantile (1/4) xs, quantile (3/4) xs) of
             (Val q1, Val q3) \<Rightarrow> x < q1 - 3/2 * (q3 - q1) \<or> x > q3 + 3/2 * (q3 - q1)
           | _ \<Rightarrow> False)
      | _ \<Rightarrow> False)"

definition flagged :: "table \<Rightarrow> cell list \<Rightarrow> bool" where
  "flagged T r = list_ex (\<lambda>((nm, c), v). out_of_fence c v) (zip T r)"

definition all_numeric :: "table \<Rightarrow> bool" where
  "all_numeric T = list_all (\<lambda>(nm, c). \<not> is_object c) T"

section \<open>The Clean Data button (app.py lines 103-134)\<close>

text \<open>The options of the select box, as the page offers them.\<close>

definition outlier_options :: "string list" where
  "outlier_options = [''Winsorize'', ''Remove outliers'']"

text \<open>
  \<^verbatim>\<open>
  cleaned_df = st.session_state.cleaned_df.copy()
  if handle_outliers:
      if outlier_method == "Winsorize": ...
      elif outlier_method == "Remove": ...
  st.session_state.cleaned_df = cleaned_df
  \<close>
\<close>

definition clean_data :: "bool \<Rightarrow> string \<Rightarrow> table \<Rightarrow> error + table" where
  "clean_data handle_outliers outlier_method T =
     (if handle_outliers then
        (if outlier_method = ''Winsorize'' then winsorize_table T
         else if outlier_method = ''Remove'' then iqr_remove T
         else Inr T)
      else Inr T)"

section \<open>Session state (app.py lines 10-18)\<close>

text \<open>
  \<^verbatim>\<open>st.session_state\<close> lives as long as the browser session; the script runs from the top at
  every interaction. The uploader gives no file or the file now uploaded, read by
  \<^verbatim>\<open>pd.read_csv\<close> (the parsing is not modelled: the run takes the parsed frame).
  \<^verbatim>\<open>
  if uploaded_file is not None:
      df = pd.read_csv(uploaded_file)
      if "cleaned_df" not in st.session_state:
          st.session_state.cleaned_df = df.copy()
  \<close>
\<close>

record session_state =
  cleaned_df :: "table option"

definition load_upload :: "table option \<Rightarrow> session_state \<Rightarrow> session_state" where
  "load_upload uploaded_file st =
     (case uploaded_file of
        None \<Rightarrow> st
      | Some df \<Rightarrow> (if cleaned_df st = None then st\<lparr>cleaned_df := Some df\<rparr> else st))"

section \<open>Example tables\<close>

definition people :: table where
  "people = [(''name'', ObjCol [Some ''ann'', None, Some ''cy'']),
             (''age'', NumCol [Val 31, Val 42, NaN])]"

text \<open>One reading per row; the last one lies far from the others.\<close>

definition readings :: table where
  "readings = [(''x'', NumCol [Val 0, Val 0, Val 0, Val 0, Val 0, Val 0, Val 0, Val 0,
                              Val 1, Val 1, Val 10])]"

definition readings1 :: table where
  "readings1 = [(''x'', NumCol [Val 0, Val 0, Val 0, Val 0, Val 0, Val 0, Val 0, Val 0,
                               Val 1, Val 1])]"

definition readings2 :: table where
  "readings2 = [(''x'', NumCol [Val 0, Val 0, Val 0, Val 0, Val 0, Val 0, Val 0, Val 0])]"

text \<open>The same readings beside a column of text.\<close>

definition labelled :: table where
  "labelled = [(''tag'', ObjCol [Some ''a'', Some ''b'', Some ''c'', Some ''d'', Some ''e'']),
               (''x'', NumCol [Val 1, Val 1, Val 1, Val 1, Val 100])]"

definition other_upload :: table where
  "other_upload = [(''y'', NumCol [Val 7])]"

text \<open>A numeric column with a gap and a far value.\<close>

definition gappy :: table where
  "gappy = [(''x'', NumCol [Val 1, NaN, Val 1, Val 1, Val 1, Val 100])]"

text \<open>A column of 22 entries, one of them NaN, and what winsorize makes of it.\<close>

definition sample :: "fnum list" where
  "sample = [Val 5, Val 0, Val 20, Val 1, Val 2, Val 3, Val 4, NaN, Val 6, Val 7, Val 8,
             Val 9, Val 10, Val 11, Val 12, Val 13, Val 14, Val 15, Val 16, Val 17,
             Val 18, Val 19]"

definition sample_w :: "fnum list" where
  "sample_w = [Val 5, Val 1, Val 20, Val 1, Val 2, Val 3, Val 4, Val 20, Val 6, Val 7, Val 8,
               Val 9, Val 10, Val 11, Val 12, Val 13, Val 14, Val 15, Val 16, Val 17,
               Val 18, Val 19]"

definition survey :: table where
  "survey = [(''who'', ObjCol (replicate 22 (Some ''r''))), (''score'', NumCol sample)]"

definition no_rows :: table where
  "no_rows = [(''x'', NumCol [])]"

section \<open>Lemmas on row selection\<close>

lemma set_keep_idx: "i \<in> set (keep_idx m) \<Longrightarrow> i < length m"
  by (simp add: keep_idx_def)

lemma col_cells_select:
  "length m \<le> col_len c \<Longrightarrow> col_cells (col_select m c) = select m (col_cells c)"
proof -
  have sel: "map f (select m xs) = select m (map f xs)" if "length m \<le> length xs" for f :: "'b \<Rightarrow> cell" and xs
    unfolding select_def map_map
  proof (rule map_cong[OF refl])
    fix i assume "i \<in> set (keep_idx m)"
    then have "i < length xs" using that set_keep_idx[of i m] by linarith
    then show "(f \<circ> (!) xs) i = map f xs ! i" by simp
  qed
  assume "length m \<le> col_len c"
  then show ?thesis
    by (cases c) (simp_all add: col_len_def sel)
qed

lemma col_len_select: "col_len (col_select m c) = length (keep_idx m)"
  by (cases c) (simp_all add: col_len_def select_def)

lemma nrows_mask_rows: "T \<noteq> [] \<Longrightarrow> nrows (mask_rows m T) = length (keep_idx m)"
  by (cases T) (auto simp: nrows_def mask_rows_def col_len_select)

lemma rows_of_mask_rows:
  assumes "rectangular T" "length m = nrows T"
  shows "rows_of (mask_rows m T) = select m (rows_of T)"
proof (cases "T = []")
  case True
  then show ?thesis using assms by (simp add: rows_of_def mask_rows_def nrows_def select_def keep_idx_def)
next
  case False
  have len: "col_len c = length m" if "(nm, c) \<in> set T" for nm c
    using that assms by (auto simp: rectangular_def list_all_iff)
  have "row_at (mask_rows m T) j = row_at T (keep_idx m ! j)" if "j < length (keep_idx m)" for j
    unfolding row_at_def mask_rows_def map_map
  proof (rule map_cong[OF refl])
    fix p assume "p \<in> set T"
    moreover obtain nm c where "p = (nm, c)" by (cases p) auto
    ultimately have p: "p = (nm, c)" "(nm, c) \<in> set T" by auto
    have "col_cells (col_select m c) ! j = col_cells c ! (keep_idx m ! j)"
      using that len[OF p(2)] by (simp add: col_cells_select select_def)
    then show "((\<lambda>(nm, c). col_cells c ! j) \<circ> (\<lambda>(nm, c). (nm, col_select m c))) p = (case p of (nm, c) \<Rightarrow> col_cells c ! (keep_idx m ! j))"
      using p by simp
  qed
  then have "map (row_at (mask_rows m T)) [0..<length (keep_idx m)] = map (\<lambda>j. row_at T (keep_idx m ! j)) [0..<length (keep_idx m)]"
    by simp
  also have "\<dots> = map (row_at T) (keep_idx m)"
    by (rule nth_equalityI) simp_all
  also have "\<dots> = select m (rows_of T)"
    using assms(2) by (auto simp: select_def rows_of_def dest: set_keep_idx)
  finally show ?thesis
    using nrows_mask_rows[OF False, of m] by (simp add: rows_of_def)
qed

lemma select_filter:
  assumes "length m = length xs" "\<And>i. i < length xs \<Longrightarrow> m ! i = P (xs ! i)"
  shows "select m xs = filter P xs"
proof -
  have "filter P xs = filter P (map ((!) xs) [0..<length xs])"
    by (simp add: map_nth)
  also have "\<dots> = map ((!) xs) (filter (P \<circ> (!) xs) [0..<length xs])"
    by (simp only: filter_map)
  also have "filter (P \<circ> (!) xs) [0..<length xs] = keep_idx m"
    unfolding keep_idx_def using assms by (auto intro!: filter_cong)
  finally show ?thesis by (simp add: select_def)
qed


lemma map_of_zip_fst_map:
  "map_of (zip (map fst T) (map g T)) nm = map_option (\<lambda>c. g (nm, c)) (map_of T nm)"
  by (induction T) auto

lemma row_get_row_at:
  "row_get T (row_at T i) nm = map_option (\<lambda>c. col_cells c ! i) (map_of T nm)"
  unfolding row_get_def row_at_def columns_def
  by (simp add: map_of_zip_fst_map)

lemma nonnull_in_row_at: "nonnull_in T (row_at T i) nm = notnull_at T i nm"
  by (simp add: nonnull_in_def notnull_at_def row_get_row_at split: option.splits)

lemma columns_mask_rows: "columns (mask_rows m T) = columns T"
  by (simp add: columns_def mask_rows_def case_prod_unfold comp_def)

lemma row_get_columns: "columns T' = columns T \<Longrightarrow> row_get T' r nm = row_get T r nm"
  by (simp add: row_get_def)

lemma rows_of_dropna_mask:
  assumes "rectangular T"
  shows "rows_of (mask_rows (dropna_mask T labels) T) =
         filter (\<lambda>r. \<forall>nm\<in>set labels. nonnull_in T r nm) (rows_of T)"
proof -
  have len: "length (dropna_mask T labels) = nrows T"
    by (simp add: dropna_mask_def)
  have "select (dropna_mask T labels) (rows_of T) =
        filter (\<lambda>r. \<forall>nm\<in>set labels. nonnull_in T r nm) (rows_of T)"
  proof (rule select_filter)
    show "length (dropna_mask T labels) = length (rows_of T)"
      by (simp add: dropna_mask_def rows_of_def)
  next
    fix i assume "i < length (rows_of T)"
    then have i: "i < nrows T" by (simp add: rows_of_def)
    then show "dropna_mask T labels ! i = (\<forall>nm\<in>set labels. nonnull_in T (rows_of T ! i) nm)"
      by (simp add: dropna_mask_def rows_of_def nonnull_in_row_at list_all_iff)
  qed
  then show ?thesis
    using rows_of_mask_rows[OF assms len] by simp
qed

section \<open>Missing-value drop: the rows kept\<close>

text \<open>
  Claim C1. For a table and a non-empty selection of its column names, the missing-value
  drop returns a table whose rows are exactly the rows of the input that are non-null in
  every selected column, in the input's order; so every row of the result is non-null in
  every selected column, and the result has at most as many rows as the input.
\<close>

theorem drop_missing_rows:
  assumes "rectangular T" and "labels \<noteq> []" and "set labels \<subseteq> set (columns T)"
  shows "\<exists>T'. drop_missing_step True labels T = Inr T' \<and>
           rows_of T' = filter (\<lambda>r. \<forall>nm\<in>set labels. nonnull_in T r nm) (rows_of T) \<and>
           (\<forall>r\<in>set (rows_of T'). \<forall>nm\<in>set labels. nonnull_in T' r nm) \<and>
           length (rows_of T') \<le> length (rows_of T)"
proof -
  let ?T' = "mask_rows (dropna_mask T labels) T"
  have step: "drop_missing_step True labels T = Inr ?T'"
    using assms(2,3) by (auto simp: drop_missing_step_def dropna_def list_ex_iff)
  have rows: "rows_of ?T' = filter (\<lambda>r. \<forall>nm\<in>set labels. nonnull_in T r nm) (rows_of T)"
    by (rule rows_of_dropna_mask[OF assms(1)])
  have same: "nonnull_in ?T' r nm = nonnull_in T r nm" for r nm
    by (simp add: nonnull_in_def row_get_columns[OF columns_mask_rows])
  have "\<forall>r\<in>set (rows_of ?T'). \<forall>nm\<in>set labels. nonnull_in ?T' r nm"
    by (simp add: rows same)
  moreover have "length (rows_of ?T') \<le> length (rows_of T)"
    by (simp add: rows)
  ultimately show ?thesis
    using step rows by blast
qed

lemma rect_people: "rectangular people"
  by (simp add: people_def rectangular_def nrows_def col_len_def)


text \<open>The theorem at the table \<open>people\<close> with the column \<open>age\<close> selected.\<close>

theorem drop_missing_rows_witness:
  "rectangular people \<and> [''age''] \<noteq> [] \<and> set [''age''] \<subseteq> set (columns people) \<and>
   (\<exists>T'. drop_missing_step True [''age''] people = Inr T' \<and>
      rows_of T' = filter (\<lambda>r. \<forall>nm\<in>set [''age'']. nonnull_in people r nm) (rows_of people) \<and>
      (\<forall>r\<in>set (rows_of T'). \<forall>nm\<in>set [''age'']. nonnull_in T' r nm) \<and>
      length (rows_of T') \<le> length (rows_of people))"
proof -
  have h1: "rectangular people" by (rule rect_people)
  have h2: "[''age''] \<noteq> []" by simp
  have h3: "set [''age''] \<subseteq> set (columns people)" by (simp add: people_def columns_def)
  show ?thesis
    using h1 h2 h3 drop_missing_rows[OF h1 h2 h3] by blast
qed

section \<open>IQR removal: the rows kept\<close>

lemma at_label_map:
  "at_label (map (\<lambda>(nm, v). (nm, f nm v)) s) nm =
     (case map_of s nm of None \<Rightarrow> NaN | Some v \<Rightarrow> f nm v)"
  by (induction s) (auto simp: at_label_def)

lemma at_label_quantiles:
  assumes "distinct (columns T)" and "(nm, NumCol xs) \<in> set T"
  shows "at_label (column_quantiles q T) nm = quantile q xs"
proof -
  have "map_of T nm = Some (NumCol xs)"
    using assms by (simp add: columns_def)
  moreover have "at_label (column_quantiles q T) nm =
      (case map_of T nm of None \<Rightarrow> NaN
       | Some c \<Rightarrow> (case c of NumCol xs \<Rightarrow> quantile q xs | ObjCol ys \<Rightarrow> NaN))"
    unfolding column_quantiles_def by (rule at_label_map)
  ultimately show ?thesis by simp
qed

lemma at_label_series_sub: "at_label (series_sub a b) nm = np_sub (at_label a nm) (at_label b nm)"
  unfolding series_sub_def
  by (simp add: at_label_map[of "\<lambda>nm v. np_sub v (at_label b nm)"]) (simp add: at_label_def split: option.splits)

lemma at_label_series_add: "at_label (series_add a b) nm = np_add (at_label a nm) (at_label b nm)"
  unfolding series_add_def
  by (simp add: at_label_map[of "\<lambda>nm v. np_add v (at_label b nm)"]) (simp add: at_label_def split: option.splits)

lemma at_label_series_scale: "at_label (series_scale k a) nm = np_scale k (at_label a nm)"
  unfolding series_scale_def
  by (simp add: at_label_map[of "\<lambda>nm v. np_scale k v"]) (simp add: at_label_def split: option.splits)

lemmas at_label_series = at_label_series_sub at_label_series_add at_label_series_scale

lemma fence_rule:
  "(np_lt x (np_sub q1 (np_scale (3/2) (np_sub q3 q1))) \<or>
    np_lt (np_add q3 (np_scale (3/2) (np_sub q3 q1))) x)
   = (case (x, q1, q3) of
        (Val v, Val a, Val b) \<Rightarrow> v < a - 3/2 * (b - a) \<or> v > b + 3/2 * (b - a)
      | _ \<Rightarrow> False)"
  by (cases x; cases q1; cases q3) simp_all

lemma zip_map_same: "zip (map f xs) (map g xs) = map (\<lambda>x. (f x, g x)) xs"
  by (induction xs) simp_all

lemma is_outlier_unfold:
  "is_outlier T Q1 Q3 =
     map (\<lambda>(nm, c). (nm, case c of
        NumCol xs \<Rightarrow> map (\<lambda>x.
            np_lt x (at_label (series_sub Q1 (series_scale (3/2) (series_sub Q3 Q1))) nm) \<or>
            np_lt (at_label (series_add Q3 (series_scale (3/2) (series_sub Q3 Q1))) nm) x) xs
      | ObjCol ys \<Rightarrow> map (\<lambda>y. False) ys)) T"
  unfolding is_outlier_def Let_def df_or_def df_lt_def df_gt_def zip_map_same map_map
  by (rule map_cong[OF refl]) (auto split: column.splits simp: zip_map_same)


lemma flagged_row_at:
  "flagged T (row_at T i) = list_ex (\<lambda>(nm, c). out_of_fence c (col_cells c ! i)) T"
proof -
  have "zip T (map (\<lambda>(nm, c). col_cells c ! i) T) = map (\<lambda>p. (p, col_cells (snd p) ! i)) T"
    using zip_map_same[of "\<lambda>p. p" T "\<lambda>(nm, c). col_cells c ! i"]
    by (simp add: case_prod_unfold)
  then show ?thesis
    unfolding flagged_def row_at_def
    by (simp add: list_ex_iff case_prod_unfold)
qed

lemma outlier_entry:
  assumes "distinct (columns T)" and "(nm, NumCol xs) \<in> set T" and "i < length xs"
  shows "(np_lt (xs ! i) (at_label (series_sub (column_quantiles (1/4) T)
            (series_scale (3/2) (series_sub (column_quantiles (3/4) T) (column_quantiles (1/4) T)))) nm) \<or>
          np_lt (at_label (series_add (column_quantiles (3/4) T)
            (series_scale (3/2) (series_sub (column_quantiles (3/4) T) (column_quantiles (1/4) T)))) nm) (xs ! i))
         = out_of_fence (NumCol xs) (NumCell (xs ! i))"
proof -
  have q: "at_label (column_quantiles q T) nm = quantile q xs" for q
    by (rule at_label_quantiles[OF assms(1,2)])
  show ?thesis
    unfolding at_label_series q fence_rule out_of_fence_def
    by (simp split: fnum.splits)
qed

lemma any_outlier_flagged:
  assumes "distinct (columns T)" and "rectangular T" and "all_numeric T" and "i < nrows T"
  shows "any_axis1 (is_outlier T (column_quantiles (1/4) T) (column_quantiles (3/4) T)) (nrows T) ! i
         = flagged T (row_at T i)"
proof -
  let ?Q1 = "column_quantiles (1/4) T" and ?Q3 = "column_quantiles (3/4) T"
  have "list_ex (\<lambda>(nm, bs). bs ! i) (is_outlier T ?Q1 ?Q3)
        = list_ex (\<lambda>(nm, c). out_of_fence c (col_cells c ! i)) T"
    unfolding is_outlier_unfold list_ex_iff set_map bex_simps
  proof (rule bex_cong[OF refl])
    fix p assume p: "p \<in> set T"
    obtain nm c where pc: "p = (nm, c)" by (cases p) auto
    from p pc assms(3) obtain xs where c: "c = NumCol xs"
      by (cases c) (auto simp: all_numeric_def list_all_iff is_object_def)
    from p pc c assms(2,4) have len: "i < length xs"
      by (auto simp: rectangular_def list_all_iff col_len_def)
    from p pc c have mem: "(nm, NumCol xs) \<in> set T" by simp
    show "(case (case p of (nm, c) \<Rightarrow> (nm, case c of
        NumCol xs \<Rightarrow> map (\<lambda>x.
            np_lt x (at_label (series_sub ?Q1 (series_scale (3/2) (series_sub ?Q3 ?Q1))) nm) \<or>
            np_lt (at_label (series_add ?Q3 (series_scale (3/2) (series_sub ?Q3 ?Q1))) nm) x) xs
      | ObjCol ys \<Rightarrow> map (\<lambda>y. False) ys)) of (nm, bs) \<Rightarrow> bs ! i)
      = (case p of (nm, c) \<Rightarrow> out_of_fence c (col_cells c ! i))"
      using len outlier_entry[OF assms(1) mem len] by (simp add: pc c)
  qed
  then show ?thesis
    using assms(4) by (simp add: any_axis1_def flagged_row_at)
qed

lemma iqr_remove_numeric:
  assumes "all_numeric T"
  shows "iqr_remove T = Inr (mask_rows (map Not (any_axis1
           (is_outlier T (column_quantiles (1/4) T) (column_quantiles (3/4) T)) (nrows T))) T)"
proof -
  have "\<not> list_ex (\<lambda>(nm, c). is_object c) T"
    using assms by (auto simp: all_numeric_def list_all_iff list_ex_iff)
  then show ?thesis
    by (simp add: iqr_remove_def df_quantile_def)
qed

lemma iqr_remove_object:
  assumes "\<not> all_numeric T"
  shows "iqr_remove T = Inl TypeError"
proof -
  have "list_ex (\<lambda>(nm, c). is_object c) T"
    using assms by (auto simp: all_numeric_def list_all_iff list_ex_iff)
  then show ?thesis
    by (simp add: iqr_remove_def df_quantile_def)
qed

lemma iqr_rows:
  assumes "distinct (columns T)" and "rectangular T" and "all_numeric T"
  shows "rows_of (mask_rows (map Not (any_axis1
           (is_outlier T (column_quantiles (1/4) T) (column_quantiles (3/4) T)) (nrows T))) T)
         = filter (\<lambda>r. \<not> flagged T r) (rows_of T)"
proof -
  let ?m = "map Not (any_axis1
           (is_outlier T (column_quantiles (1/4) T) (column_quantiles (3/4) T)) (nrows T))"
  have len: "length ?m = nrows T"
    by (simp add: any_axis1_def)
  have "select ?m (rows_of T) = filter (\<lambda>r. \<not> flagged T r) (rows_of T)"
  proof (rule select_filter)
    show "length ?m = length (rows_of T)"
      by (simp add: any_axis1_def rows_of_def)
  next
    fix i assume "i < length (rows_of T)"
    then have i: "i < nrows T" by (simp add: rows_of_def)
    have "?m ! i = (\<not> any_axis1
           (is_outlier T (column_quantiles (1/4) T) (column_quantiles (3/4) T)) (nrows T) ! i)"
      using i by (simp add: any_axis1_def)
    also have "\<dots> = (\<not> flagged T (row_at T i))"
      by (simp only: any_outlier_flagged[OF assms i])
    finally show "?m ! i = (\<not> flagged T (rows_of T ! i))"
      using i by (simp add: rows_of_def)
  qed
  then show ?thesis
    using rows_of_mask_rows[OF assms(2) len] by simp
qed


lemma rect_readings: "rectangular readings"
  by (simp add: readings_def rectangular_def nrows_def col_len_def)

lemma numeric_readings: "all_numeric readings"
  by (simp add: readings_def all_numeric_def is_object_def)

lemma distinct_readings: "distinct (columns readings)"
  by (simp add: readings_def columns_def)




section \<open>Row counts and order under row removal\<close>

lemma length_keep_idx: "length (keep_idx m) \<le> length m"
  unfolding keep_idx_def using length_filter_le[of "\<lambda>i. m ! i" "[0..<length m]"] by simp

lemma nrows_mask_rows_le: "length m = nrows T \<Longrightarrow> nrows (mask_rows m T) \<le> nrows T"
proof (cases "T = []")
  case True
  then show ?thesis by (simp add: mask_rows_def)
next
  case False
  assume "length m = nrows T"
  then show ?thesis
    using nrows_mask_rows[OF False, of m] length_keep_idx[of m] by simp
qed

lemma all_numeric_mask_rows: "all_numeric (mask_rows m T) = all_numeric T"
proof -
  have "is_object (col_select m c) = is_object c" for c
    by (cases c) (simp_all add: is_object_def)
  then show ?thesis
    by (simp add: all_numeric_def mask_rows_def list_all_iff case_prod_unfold)
qed

lemma subseq_select:
  assumes "length m = length xs"
  shows "subseq (select m xs) xs"
proof -
  have "subseq (filter (\<lambda>i. m ! i) [0..<length xs]) [0..<length xs]"
    by simp
  then have "subseq (map ((!) xs) (filter (\<lambda>i. m ! i) [0..<length xs])) (map ((!) xs) [0..<length xs])"
    by (rule subseq_map)
  then show ?thesis
    using assms by (simp add: select_def keep_idx_def map_nth)
qed

lemma subseq_rows_mask_rows:
  assumes "rectangular T" and "length m = nrows T"
  shows "subseq (rows_of (mask_rows m T)) (rows_of T)"
proof -
  have "length m = length (rows_of T)"
    using assms(2) by (simp add: rows_of_def)
  then show ?thesis
    using rows_of_mask_rows[OF assms] subseq_select[of m "rows_of T"] by simp
qed

lemma iqr_remove_Inr:
  assumes "iqr_remove T = Inr T'"
  shows "\<exists>m. length m = nrows T \<and> T' = mask_rows m T"
proof (cases "all_numeric T")
  case True
  show ?thesis
    using assms iqr_remove_numeric[OF True]
    by (intro exI[of _ "map Not (any_axis1
           (is_outlier T (column_quantiles (1/4) T) (column_quantiles (3/4) T)) (nrows T))"])
       (simp add: any_axis1_def)
next
  case False
  then show ?thesis
    using assms iqr_remove_object[OF False] by simp
qed

lemma dropna_Inr:
  assumes "dropna T labels = Inr T'"
  shows "\<exists>m. length m = nrows T \<and> T' = mask_rows m T"
  using assms
  by (intro exI[of _ "dropna_mask T labels"])
     (auto simp: dropna_def dropna_mask_def split: if_splits)

text \<open>
  Claim C6, amended. For every table whose columns are all numeric, the IQR removal step
  can be applied to its own output, with the thresholds recomputed on the filtered table,
  and no pass adds rows: the row count does not increase from the input to the first
  output, nor from the first output to the second. (The second pass may remove no row; it
  may also remove more rows than the first.)
\<close>

theorem iqr_second_pass_row_counts:
  assumes "all_numeric T"
  shows "\<exists>T1 T2. iqr_remove T = Inr T1 \<and> iqr_remove T1 = Inr T2 \<and>
           nrows T2 \<le> nrows T1 \<and> nrows T1 \<le> nrows T"
proof -
  obtain T1 where T1: "iqr_remove T = Inr T1"
    using iqr_remove_numeric[OF assms] by simp
  from iqr_remove_Inr[OF T1] obtain m where m: "length m = nrows T" "T1 = mask_rows m T"
    by blast
  have num1: "all_numeric T1"
    using assms m(2) by (simp add: all_numeric_mask_rows)
  obtain T2 where T2: "iqr_remove T1 = Inr T2"
    using iqr_remove_numeric[OF num1] by simp
  from iqr_remove_Inr[OF T2] obtain m' where m': "length m' = nrows T1" "T2 = mask_rows m' T1"
    by blast
  have "nrows T1 \<le> nrows T"
    using m nrows_mask_rows_le by simp
  moreover have "nrows T2 \<le> nrows T1"
    using m' nrows_mask_rows_le by simp
  ultimately show ?thesis
    using T1 T2 by blast
qed

text \<open>The theorem at the table \<open>readings\<close>.\<close>

theorem iqr_second_pass_row_counts_witness:
  "all_numeric readings \<and>
   (\<exists>T1 T2. iqr_remove readings = Inr T1 \<and> iqr_remove T1 = Inr T2 \<and>
      nrows T2 \<le> nrows T1 \<and> nrows T1 \<le> nrows readings)"
  using iqr_second_pass_row_counts[OF numeric_readings] numeric_readings
  by blast

text \<open>
  Claim C6 as stated fails at the table \<open>readings\<close>: the first pass removes one row (the
  reading 10), the second pass, with the quartiles of the ten rows left, removes two (the
  readings 1), and two is more than one.
\<close>

theorem iqr_second_pass_counterexample:
  "iqr_remove readings = Inr readings1 \<and> iqr_remove readings1 = Inr readings2 \<and>
   nrows readings - nrows readings1 = 1 \<and> nrows readings1 - nrows readings2 = 2"
  by code_simp

text \<open>
  Claim C10. The missing-value drop and the IQR removal keep the order of the rows: the
  rows of the table either returns are a subsequence of the rows of its input (no row is
  moved, repeated or changed).
\<close>

theorem row_removal_keeps_order:
  assumes "rectangular T"
  shows "(dropna T labels = Inr T1 \<longrightarrow> subseq (rows_of T1) (rows_of T)) \<and>
         (iqr_remove T = Inr T2 \<longrightarrow> subseq (rows_of T2) (rows_of T))"
proof (intro conjI impI)
  assume "dropna T labels = Inr T1"
  from dropna_Inr[OF this] obtain m where "length m = nrows T" "T1 = mask_rows m T"
    by blast
  then show "subseq (rows_of T1) (rows_of T)"
    using subseq_rows_mask_rows[OF assms] by simp
next
  assume "iqr_remove T = Inr T2"
  from iqr_remove_Inr[OF this] obtain m where "length m = nrows T" "T2 = mask_rows m T"
    by blast
  then show "subseq (rows_of T2) (rows_of T)"
    using subseq_rows_mask_rows[OF assms] by simp
qed


lemma rect_gappy: "rectangular gappy"
  by (simp add: gappy_def rectangular_def nrows_def col_len_def)

lemma dropna_gappy:
  "dropna gappy [''x''] = Inr [(''x'', NumCol [Val 1, Val 1, Val 1, Val 1, Val 100])]"
  by code_simp

lemma iqr_gappy:
  "iqr_remove gappy = Inr [(''x'', NumCol [Val 1, NaN, Val 1, Val 1, Val 1])]"
  by code_simp

text \<open>The theorem at the table \<open>gappy\<close>, where each operation removes one row.\<close>

theorem row_removal_keeps_order_witness:
  "rectangular gappy \<and>
   dropna gappy [''x''] = Inr [(''x'', NumCol [Val 1, Val 1, Val 1, Val 1, Val 100])] \<and>
   subseq (rows_of [(''x'', NumCol [Val 1, Val 1, Val 1, Val 1, Val 100])]) (rows_of gappy) \<and>
   iqr_remove gappy = Inr [(''x'', NumCol [Val 1, NaN, Val 1, Val 1, Val 1])] \<and>
   subseq (rows_of [(''x'', NumCol [Val 1, NaN, Val 1, Val 1, Val 1])]) (rows_of gappy)"
  using row_removal_keeps_order[OF rect_gappy, of "[''x'']"
      "[(''x'', NumCol [Val 1, Val 1, Val 1, Val 1, Val 100])]"
      "[(''x'', NumCol [Val 1, NaN, Val 1, Val 1, Val 1])]"]
    rect_gappy dropna_gappy iqr_gappy
  by blast

section \<open>The Clean Data button and the session\<close>

lemma clean_data_other_label:
  "outlier_method \<noteq> ''Winsorize'' \<Longrightarrow> outlier_method \<noteq> ''Remove'' \<Longrightarrow>
   clean_data handle_outliers outlier_method T = Inr T"
  by (simp add: clean_data_def)

text \<open>
  Claim C2 does not hold of the code. The select box offers the label "Remove outliers",
  the branch that removes outliers tests for the string "Remove": with outlier handling
  enabled and "Remove outliers" selected, Clean Data leaves the table \<open>readings\<close> as it
  is, although the IQR removal step, applied to it, drops the row with the reading 10.
\<close>

theorem remove_outliers_label_not_applied:
  "''Remove outliers'' \<in> set outlier_options \<and> ''Remove'' \<notin> set outlier_options \<and>
   clean_data True ''Remove outliers'' readings = Inr readings \<and>
   iqr_remove readings = Inr readings1 \<and> readings1 \<noteq> readings"
  by code_simp

text \<open>
  Claim C8, amended. When a file is uploaded and the session holds no Working Table, the
  Working Table becomes a copy of the uploaded data. When the session already holds a
  Working Table, an upload, of the same file or of a new one, leaves it as it is. Without
  an uploaded file the session is unchanged.
\<close>

theorem upload_initialises_once:
  "(cleaned_df st = None \<longrightarrow> cleaned_df (load_upload (Some df) st) = Some df) \<and>
   (cleaned_df st = Some T \<longrightarrow> cleaned_df (load_upload (Some df) st) = Some T) \<and>
   load_upload None st = st"
  by (simp add: load_upload_def)

text \<open>The theorem at an empty session and at a session that holds \<open>readings\<close>.\<close>

theorem upload_initialises_once_witness:
  "cleaned_df \<lparr>cleaned_df = None\<rparr> = None \<and>
   cleaned_df (load_upload (Some other_upload) \<lparr>cleaned_df = None\<rparr>) = Some other_upload \<and>
   cleaned_df \<lparr>cleaned_df = Some readings\<rparr> = Some readings \<and>
   cleaned_df (load_upload (Some other_upload) \<lparr>cleaned_df = Some readings\<rparr>) = Some readings"
  using upload_initialises_once[of "\<lparr>cleaned_df = None\<rparr>" other_upload readings]
    upload_initialises_once[of "\<lparr>cleaned_df = Some readings\<rparr>" other_upload readings]
  by simp

text \<open>
  Claim C8 as stated fails in a session that holds the table \<open>readings\<close>: after the upload
  of another file the Working Table is still \<open>readings\<close>, not the new data.
\<close>

theorem new_upload_counterexample:
  "cleaned_df (load_upload (Some other_upload) \<lparr>cleaned_df = Some readings\<rparr>) = Some readings \<and>
   readings \<noteq> other_upload"
  by (simp add: load_upload_def readings_def other_upload_def)

section \<open>Column names\<close>

lemma columns_set_column: "columns (set_column T col c) = columns T"
  by (induction T) (auto simp: columns_def set_column_def)

lemma columns_winsorize_loop:
  "winsorize_loop cols T = Inr T' \<Longrightarrow> columns T' = columns T"
proof (induction cols arbitrary: T)
  case Nil
  then show ?case by simp
next
  case (Cons col cols)
  from Cons.prems obtain xs ys where
    "map_of T col = Some (NumCol xs)" "winsorize xs (1/20) (1/20) = Inr ys"
    "winsorize_loop cols (set_column T col (NumCol ys)) = Inr T'"
    by (auto split: option.splits column.splits sum.splits)
  then show ?case
    using Cons.IH[of "set_column T col (NumCol ys)"] by (simp add: columns_set_column)
qed

text \<open>
  Claim C7. Every operation on the Working Table keeps its column names: the table that
  the missing-value drop, the winsorize loop or the IQR removal returns has exactly the
  column names of its input, in the same order; so have the two steps of the page, the
  drop-missing step and Clean Data, whatever their settings.
\<close>

theorem operations_keep_columns:
  "(dropna T labels = Inr T1 \<longrightarrow> columns T1 = columns T) \<and>
   (winsorize_table T = Inr T2 \<longrightarrow> columns T2 = columns T) \<and>
   (iqr_remove T = Inr T3 \<longrightarrow> columns T3 = columns T) \<and>
   (drop_missing_step enabled labels T = Inr T4 \<longrightarrow> columns T4 = columns T) \<and>
   (clean_data handle_outliers outlier_method T = Inr T5 \<longrightarrow> columns T5 = columns T)"
proof -
  have d: "columns T' = columns T" if "dropna T labels = Inr T'" for T'
    using dropna_Inr[OF that] by (auto simp: columns_mask_rows)
  have w: "columns T' = columns T" if "winsorize_table T = Inr T'" for T'
    using that unfolding winsorize_table_def by (rule columns_winsorize_loop)
  have i: "columns T' = columns T" if "iqr_remove T = Inr T'" for T'
    using iqr_remove_Inr[OF that] by (auto simp: columns_mask_rows)
  have s: "columns T' = columns T" if "drop_missing_step enabled labels T = Inr T'" for T'
    using that d by (auto simp: drop_missing_step_def split: if_splits)
  have c: "columns T' = columns T" if "clean_data handle_outliers outlier_method T = Inr T'" for T'
    using that w i by (auto simp: clean_data_def split: if_splits)
  show ?thesis
    using d w i s c by blast
qed

lemma winsorize_gappy: "winsorize_table gappy = Inr gappy"
  by code_simp

lemma step_gappy:
  "drop_missing_step True [''x''] gappy = Inr [(''x'', NumCol [Val 1, Val 1, Val 1, Val 1, Val 100])]"
  by code_simp

lemma clean_gappy: "clean_data True ''Winsorize'' gappy = Inr gappy"
  by code_simp

text \<open>The theorem at the table \<open>gappy\<close>, where each operation returns a table.\<close>

theorem operations_keep_columns_witness:
  "dropna gappy [''x''] = Inr [(''x'', NumCol [Val 1, Val 1, Val 1, Val 1, Val 100])] \<and>
   columns [(''x'', NumCol [Val 1, Val 1, Val 1, Val 1, Val 100])] = columns gappy \<and>
   winsorize_table gappy = Inr gappy \<and>
   iqr_remove gappy = Inr [(''x'', NumCol [Val 1, NaN, Val 1, Val 1, Val 1])] \<and>
   columns [(''x'', NumCol [Val 1, NaN, Val 1, Val 1, Val 1])] = columns gappy \<and>
   drop_missing_step True [''x''] gappy = Inr [(''x'', NumCol [Val 1, Val 1, Val 1, Val 1, Val 100])] \<and>
   clean_data True ''Winsorize'' gappy = Inr gappy"
  using operations_keep_columns[of gappy "[''x'']"
      "[(''x'', NumCol [Val 1, Val 1, Val 1, Val 1, Val 100])]" gappy
      "[(''x'', NumCol [Val 1, NaN, Val 1, Val 1, Val 1])]" True
      "[(''x'', NumCol [Val 1, Val 1, Val 1, Val 1, Val 100])]" True "''Winsorize''" gappy]
    dropna_gappy winsorize_gappy iqr_gappy step_gappy clean_gappy
  by blast

section \<open>Winsorize: clipping between two order statistics\<close>

lemma length_put: "length (put a js v) = length a"
  unfolding put_def by (induction js arbitrary: a) simp_all

lemma nth_put:
  "i < length a \<Longrightarrow> put a js v ! i = (if i \<in> set js then v else a ! i)"
  unfolding put_def
proof (induction js arbitrary: a)
  case Nil
  then show ?case by simp
next
  case (Cons j js)
  have "fold (\<lambda>j b. b[j := v]) js (a[j := v]) ! i =
        (if i \<in> set js then v else a[j := v] ! i)"
    using Cons.IH[of "a[j := v]"] Cons.prems by simp
  then show ?case
    using Cons.prems by (auto simp: nth_list_update)
qed

lemma argsort_pairs:
  assumes "p \<in> set (sort_key fst (zip a [0..<length a]))"
  shows "snd p < length a \<and> fst p = a ! snd p"
proof -
  from assms have "p \<in> set (zip a [0..<length a])" by simp
  then obtain k where "k < length a" "p = (a ! k, k)"
    by (auto simp: in_set_zip)
  then show ?thesis by simp
qed

lemma length_argsort: "length (argsort a) = length a"
  by (simp add: argsort_def)

lemma set_argsort: "set (argsort a) = {0..<length a}"
proof -
  have z: "map snd (zip a [0..<length a]) = [0..<length a]"
    by (rule map_snd_zip) simp
  have "set (argsort a) = snd ` set (zip a [0..<length a])"
    by (simp add: argsort_def)
  also have "\<dots> = set (map snd (zip a [0..<length a]))"
    by (simp only: set_map)
  also have "\<dots> = {0..<length a}"
    by (simp only: z set_upt)
  finally show ?thesis .
qed

lemma map_nth_argsort: "map ((!) a) (argsort a) = sort a"
proof -
  let ?ps = "sort_key fst (zip a [0..<length a])"
  have "map ((!) a) (argsort a) = map (\<lambda>p. a ! snd p) ?ps"
    by (simp add: argsort_def comp_def)
  also have "\<dots> = map fst ?ps"
  proof (rule map_cong[OF refl])
    fix p assume "p \<in> set ?ps"
    then show "a ! snd p = fst p"
      using argsort_pairs[of p a] by simp
  qed
  also have "\<dots> = sort a"
  proof (rule properties_for_sort[symmetric])
    have z: "map fst (zip a [0..<length a]) = a"
      by (rule map_fst_zip) simp
    have "mset (map fst ?ps) = image_mset fst (mset (zip a [0..<length a]))"
      by simp
    also have "\<dots> = mset (map fst (zip a [0..<length a]))"
      by (simp only: mset_map)
    finally show "mset (map fst ?ps) = mset a"
      by (simp only: z)
    show "sorted (map fst ?ps)"
      by (rule sorted_sort_key)
  qed
  finally show ?thesis .
qed

lemma nth_argsort:
  assumes "j < length a"
  shows "a ! (argsort a ! j) = sort a ! j" and "argsort a ! j < length a"
proof -
  have "map ((!) a) (argsort a) ! j = sort a ! j"
    by (simp only: map_nth_argsort)
  then show "a ! (argsort a ! j) = sort a ! j"
    using assms by (simp add: length_argsort)
  have "argsort a ! j \<in> set (argsort a)"
    using assms by (simp add: length_argsort)
  then show "argsort a ! j < length a"
    by (simp add: set_argsort)
qed

lemma argsort_position:
  assumes "i < length a"
  obtains j where "j < length a" and "argsort a ! j = i"
proof -
  from assms have "i \<in> set (argsort a)"
    by (simp add: set_argsort)
  then obtain j where "j < length (argsort a)" "argsort a ! j = i"
    by (auto simp: in_set_conv_nth)
  then show ?thesis
    using that by (simp add: length_argsort)
qed


lemma in_take_position:
  "(x \<in> set (take k xs)) = (\<exists>j. j < k \<and> j < length xs \<and> xs ! j = x)"
  by (auto simp: in_set_conv_nth)

lemma in_drop_position:
  "(x \<in> set (drop k xs)) = (\<exists>j. k \<le> j \<and> j < length xs \<and> xs ! j = x)"
proof
  assume "x \<in> set (drop k xs)"
  then obtain j where "j < length xs - k" "drop k xs ! j = x"
    by (auto simp: in_set_conv_nth)
  then have "k \<le> k + j \<and> k + j < length xs \<and> xs ! (k + j) = x"
    by auto
  then show "\<exists>j. k \<le> j \<and> j < length xs \<and> xs ! j = x" by blast
next
  assume "\<exists>j. k \<le> j \<and> j < length xs \<and> xs ! j = x"
  then obtain j where j: "k \<le> j" "j < length xs" "xs ! j = x" by blast
  then have "j - k < length (drop k xs)" "drop k xs ! (j - k) = x"
    by auto
  then show "x \<in> set (drop k xs)"
    by (metis nth_mem)
qed

lemma sort_nth_mono: "j \<le> k \<Longrightarrow> k < length a \<Longrightarrow> sort a ! j \<le> sort a ! k"
  by (rule sorted_nth_mono) simp_all

lemma in_take_le:
  assumes "i \<in> set (take k (argsort a))" and "k < length a"
  shows "a ! i \<le> sort a ! k"
proof -
  from assms(1) obtain j where j: "j < k" "j < length (argsort a)" "argsort a ! j = i"
    by (auto simp: in_take_position)
  then have "a ! i = sort a ! j"
    using nth_argsort(1)[of j a] by (simp add: length_argsort)
  then show ?thesis
    using sort_nth_mono[of j k a] j(1) assms(2) by simp
qed

lemma not_in_take_ge:
  assumes "i < length a" and "i \<notin> set (take k (argsort a))" and "k < length a"
  shows "sort a ! k \<le> a ! i"
proof -
  obtain j where j: "j < length a" "argsort a ! j = i"
    using argsort_position[OF assms(1)] by blast
  have "k \<le> j"
  proof (rule ccontr)
    assume "\<not> k \<le> j"
    then have "j < k \<and> j < length (argsort a) \<and> argsort a ! j = i"
      using j by (simp add: length_argsort)
    then have "i \<in> set (take k (argsort a))"
      unfolding in_take_position by blast
    then show False using assms(2) by simp
  qed
  moreover have "a ! i = sort a ! j"
    using nth_argsort(1)[OF j(1)] j(2) by simp
  ultimately show ?thesis
    using sort_nth_mono[of k j a] j(1) by simp
qed

lemma in_drop_ge:
  assumes "i \<in> set (drop k (argsort a))" and "0 < k"
  shows "sort a ! (k - 1) \<le> a ! i"
proof -
  from assms(1) obtain j where j: "k \<le> j" "j < length (argsort a)" "argsort a ! j = i"
    by (auto simp: in_drop_position)
  then have ja: "j < length a" by (simp add: length_argsort)
  then have "a ! i = sort a ! j"
    using nth_argsort(1)[of j a] j(3) by simp
  then show ?thesis
    using sort_nth_mono[of "k - 1" j a] j(1) ja by simp
qed

lemma not_in_drop_le:
  assumes "i < length a" and "i \<notin> set (drop k (argsort a))" and "0 < k" and "k \<le> length a"
  shows "a ! i \<le> sort a ! (k - 1)"
proof -
  obtain j where j: "j < length a" "argsort a ! j = i"
    using argsort_position[OF assms(1)] by blast
  have "j < k"
  proof (rule ccontr)
    assume "\<not> j < k"
    then have "k \<le> j \<and> j < length (argsort a) \<and> argsort a ! j = i"
      using j by (simp add: length_argsort)
    then have "i \<in> set (drop k (argsort a))"
      unfolding in_drop_position by blast
    then show False using assms(2) by simp
  qed
  moreover have "a ! i = sort a ! j"
    using nth_argsort(1)[OF j(1)] j(2) by simp
  ultimately show ?thesis
    using sort_nth_mono[of j "k - 1" a] assms(3,4) by simp
qed

lemma floor_twentieth:
  "nat \<lfloor>(1/20::rat) * of_nat n\<rfloor> = n div 20" "nat \<lfloor>of_nat n * (1/20::rat)\<rfloor> = n div 20"
proof -
  have "\<lfloor>(of_nat n :: rat) / of_nat 20\<rfloor> = int (n div 20)"
    by (rule floor_divide_of_nat_eq)
  then have f: "\<lfloor>(of_nat n :: rat) / 20\<rfloor> = int (n div 20)"
    by simp
  show "nat \<lfloor>(1/20::rat) * of_nat n\<rfloor> = n div 20"
    using f by simp
  show "nat \<lfloor>of_nat n * (1/20::rat)\<rfloor> = n div 20"
    using f by simp
qed


lemma put_max:
  assumes "\<And>i. i \<in> set js \<Longrightarrow> a ! i \<le> lo"
    and "\<And>i. i < length a \<Longrightarrow> i \<notin> set js \<Longrightarrow> lo \<le> a ! i"
  shows "put a js lo = map (max (lo :: fnum)) a"
proof (rule nth_equalityI)
  show "length (put a js lo) = length (map (max lo) a)"
    by (simp add: length_put)
next
  fix i assume "i < length (put a js lo)"
  then have i: "i < length a" by (simp add: length_put)
  show "put a js lo ! i = map (max lo) a ! i"
  proof (cases "i \<in> set js")
    case True
    then have "a ! i \<le> lo" by (rule assms(1))
    then have "max lo (a ! i) = lo" by (rule max_absorb1)
    then show ?thesis using i True by (simp add: nth_put)
  next
    case False
    with i have "lo \<le> a ! i" by (rule assms(2))
    then have "max lo (a ! i) = a ! i" by (rule max_absorb2)
    then show ?thesis using i False by (simp add: nth_put)
  qed
qed

lemma put_clip:
  assumes "\<And>i. i \<in> set js \<Longrightarrow> hi \<le> a ! i"
    and "\<And>i. i < length a \<Longrightarrow> i \<notin> set js \<Longrightarrow> a ! i \<le> hi"
    and "lo \<le> hi"
  shows "put (map (max lo) a) js hi = map (clip lo hi) (a :: fnum list)"
proof (rule nth_equalityI)
  show "length (put (map (max lo) a) js hi) = length (map (clip lo hi) a)"
    by (simp add: length_put)
next
  fix i assume "i < length (put (map (max lo) a) js hi)"
  then have i: "i < length a" by (simp add: length_put)
  show "put (map (max lo) a) js hi ! i = map (clip lo hi) a ! i"
  proof (cases "i \<in> set js")
    case True
    then have h: "hi \<le> a ! i" by (rule assms(1))
    then have "lo \<le> a ! i" using assms(3) by (rule order_trans[rotated])
    then have "max lo (a ! i) = a ! i" by (rule max_absorb2)
    then have "clip lo hi (a ! i) = hi"
      using h by (simp add: clip_def min_absorb1)
    then show ?thesis using i True by (simp add: nth_put)
  next
    case False
    with i have "a ! i \<le> hi" by (rule assms(2))
    then have "max lo (a ! i) \<le> hi" using assms(3) by simp
    then have "clip lo hi (a ! i) = max lo (a ! i)"
      unfolding clip_def by (rule min_absorb2)
    then show ?thesis using i False by (simp add: nth_put)
  qed
qed

lemma low_le_high:
  assumes "a \<noteq> []"
  shows "low_value a \<le> high_value a"
proof -
  have "0 < length a" using assms by simp
  then have "length a div 20 \<le> length a - 1 - length a div 20" "length a - 1 - length a div 20 < length a"
    by linarith+
  then show ?thesis
    unfolding low_value_def high_value_def by (rule sort_nth_mono)
qed

lemma winsorize_clip:
  assumes "a \<noteq> []"
  shows "winsorize a (1/20) (1/20) = Inr (map (clip (low_value a) (high_value a)) a)"
proof -
  define k where "k = length a div 20"
  define u where "u = length a - length a div 20"
  define idx where "idx = argsort a"
  have n: "0 < length a" using assms by simp
  then have k: "k < length a" and u: "0 < u" "u \<le> length a"
    and u1: "u - 1 = length a - 1 - length a div 20"
    unfolding k_def u_def by linarith+
  have lidx: "length idx = length a"
    by (simp add: idx_def length_argsort)
  have lv: "sort a ! k = low_value a"
    by (simp add: low_value_def k_def)
  have hv: "sort a ! (u - 1) = high_value a"
    by (simp only: high_value_def u1)
  have le: "low_value a \<le> high_value a"
    by (rule low_le_high[OF assms])
  have pk: "py_index idx (int k) = Inr (idx ! k)"
    using k by (simp add: py_index_def lidx)
  have lo: "a ! (idx ! k) = low_value a"
    using nth_argsort(1)[OF k] lv by (simp add: idx_def)
  have a1: "put a (take k idx) (low_value a) = map (max (low_value a)) a"
  proof (rule put_max)
    fix i assume "i \<in> set (take k idx)"
    then show "a ! i \<le> low_value a"
      using in_take_le[of i k a] k lv by (simp add: idx_def)
  next
    fix i assume "i < length a" "i \<notin> set (take k idx)"
    then show "low_value a \<le> a ! i"
      using not_in_take_ge[of i a k] k lv by (simp add: idx_def)
  qed
  have pu: "py_index idx (int u - 1) = Inr (idx ! (u - 1))"
  proof -
    have "0 \<le> int u - 1" "int u - 1 < int (length idx)" "nat (int u - 1) = u - 1"
      using u by (simp_all add: lidx)
    then show ?thesis by (simp only: py_index_def simp_thms if_True)
  qed
  have iu: "idx ! (u - 1) < length a" and au: "a ! (idx ! (u - 1)) = high_value a"
    using nth_argsort[of "u - 1" a] u hv by (simp_all add: idx_def)
  have hi: "map (max (low_value a)) a ! (idx ! (u - 1)) = high_value a"
    using iu au le by (simp add: max_def)
  have a2: "put (map (max (low_value a)) a) (drop u idx) (high_value a)
            = map (clip (low_value a) (high_value a)) a"
  proof (rule put_clip)
    fix i assume "i \<in> set (drop u idx)"
    then show "high_value a \<le> a ! i"
      using in_drop_ge[of i u a] u hv by (simp add: idx_def)
  next
    fix i assume "i < length a" "i \<notin> set (drop u idx)"
    then show "a ! i \<le> high_value a"
      using not_in_drop_le[of i a u] u hv by (simp add: idx_def)
  next
    show "low_value a \<le> high_value a" by (rule le)
  qed
  have "winsorize a (1/20) (1/20) =
        (case (case py_index idx (int k) of
                 Inl e \<Rightarrow> Inl e
               | Inr j \<Rightarrow> Inr (put a (take k idx) (a ! j))) of
           Inl e \<Rightarrow> Inl e
         | Inr a1 \<Rightarrow>
             (case py_index idx (int u - 1) of
                Inl e \<Rightarrow> Inl e
              | Inr j \<Rightarrow> Inr (put a1 (drop u idx) (a1 ! j))))"
    unfolding winsorize_def Let_def floor_twentieth k_def u_def idx_def by simp
  also have "\<dots> = Inr (map (clip (low_value a) (high_value a)) a)"
    by (simp only: pk sum.case lo a1 pu hi a2)
  finally show ?thesis .
qed

lemma winsorize_empty: "winsorize [] (1/20) (1/20) = Inl IndexError"
  by (simp add: winsorize_def argsort_def py_index_def)

section \<open>Winsorize twice\<close>

lemma clip_mono: "x \<le> y \<Longrightarrow> clip lo hi x \<le> clip lo hi (y :: fnum)"
  unfolding clip_def by (meson max.mono min.mono order_refl)

lemma sort_map_clip: "sort (map (clip lo hi) xs) = map (clip lo hi) (sort (xs :: fnum list))"
proof (rule properties_for_sort)
  show "mset (map (clip lo hi) (sort xs)) = mset (map (clip lo hi) xs)"
    by simp
  show "sorted (map (clip lo hi) (sort xs))"
    by (rule sorted_map_mono) (auto simp: mono_on_def clip_mono)
qed

lemma clip_low: "lo \<le> hi \<Longrightarrow> clip lo hi lo = (lo :: fnum)"
  by (simp add: clip_def min_absorb2)

lemma clip_high: "lo \<le> hi \<Longrightarrow> clip lo hi hi = (hi :: fnum)"
  by (simp add: clip_def max_absorb2)

lemma clip_clip: "lo \<le> hi \<Longrightarrow> clip lo hi (clip lo hi x) = clip lo hi (x :: fnum)"
proof -
  assume le: "lo \<le> hi"
  have 1: "lo \<le> clip lo hi x"
    using le by (simp add: clip_def)
  have 2: "clip lo hi x \<le> hi"
    by (simp add: clip_def)
  have "max lo (clip lo hi x) = clip lo hi x"
    using 1 by (rule max_absorb2)
  then show ?thesis
    using 2 by (simp add: clip_def[of lo hi "clip lo hi x"] min_absorb2)
qed

lemma values_after_clip:
  assumes "a \<noteq> []"
  shows "low_value (map (clip (low_value a) (high_value a)) a) = low_value a"
    and "high_value (map (clip (low_value a) (high_value a)) a) = high_value a"
proof -
  have le: "low_value a \<le> high_value a"
    by (rule low_le_high[OF assms])
  have n: "0 < length a" using assms by simp
  then have k: "length a div 20 < length a" and h: "length a - 1 - length a div 20 < length a"
    by linarith+
  let ?f = "clip (low_value a) (high_value a)"
  have "low_value (map ?f a) = sort (map ?f a) ! (length a div 20)"
    by (simp add: low_value_def)
  also have "\<dots> = map ?f (sort a) ! (length a div 20)"
    by (simp only: sort_map_clip)
  also have "\<dots> = ?f (sort a ! (length a div 20))"
    using k by simp
  also have "\<dots> = ?f (low_value a)"
    by (simp only: low_value_def)
  finally show "low_value (map ?f a) = low_value a"
    using clip_low[OF le] by simp
  have "high_value (map ?f a) = sort (map ?f a) ! (length a - 1 - length a div 20)"
    by (simp add: high_value_def)
  also have "\<dots> = map ?f (sort a) ! (length a - 1 - length a div 20)"
    by (simp only: sort_map_clip)
  also have "\<dots> = ?f (sort a ! (length a - 1 - length a div 20))"
    using h by simp
  also have "\<dots> = ?f (high_value a)"
    by (simp only: high_value_def)
  finally show "high_value (map ?f a) = high_value a"
    using clip_high[OF le] by simp
qed

lemma winsorize_Inr:
  assumes "winsorize x (1/20) (1/20) = Inr y"
  shows "x \<noteq> []" and "y = map (clip (low_value x) (high_value x)) x"
proof -
  show ne: "x \<noteq> []"
    using assms winsorize_empty by auto
  show "y = map (clip (low_value x) (high_value x)) x"
    using assms winsorize_clip[OF ne] by simp
qed

text \<open>
  Claim C5. Winsorization at the limits 5%/5% is idempotent: when winsorize returns \<open>y\<close> for
  a numeric column \<open>x\<close>, it returns \<open>y\<close> for \<open>y\<close>; and it does return an array for every
  column that is not empty.
\<close>

theorem winsorize_idempotent:
  "(x \<noteq> [] \<longrightarrow> (\<exists>y. winsorize x (1/20) (1/20) = Inr y)) \<and>
   (winsorize x (1/20) (1/20) = Inr y \<longrightarrow> winsorize y (1/20) (1/20) = Inr y)"
proof (intro conjI impI)
  assume "x \<noteq> []"
  then show "\<exists>y. winsorize x (1/20) (1/20) = Inr y"
    using winsorize_clip by blast
next
  assume w: "winsorize x (1/20) (1/20) = Inr y"
  let ?lo = "low_value x" and ?hi = "high_value x"
  have ne: "x \<noteq> []" and y: "y = map (clip ?lo ?hi) x"
    using winsorize_Inr[OF w] by simp_all
  have le: "?lo \<le> ?hi"
    by (rule low_le_high[OF ne])
  have yne: "y \<noteq> []" using ne y by simp
  have "winsorize y (1/20) (1/20) = Inr (map (clip (low_value y) (high_value y)) y)"
    by (rule winsorize_clip[OF yne])
  also have "\<dots> = Inr (map (clip ?lo ?hi) y)"
    using values_after_clip[OF ne] y by simp
  also have "map (clip ?lo ?hi) y = y"
    unfolding y using clip_clip[OF le] by simp
  finally show "winsorize y (1/20) (1/20) = Inr y" .
qed


lemma winsorize_sample: "winsorize sample (1/20) (1/20) = Inr sample_w"
  by code_simp

text \<open>The theorem at the column \<open>sample\<close>, whose lowest entry and NaN are replaced.\<close>

theorem winsorize_idempotent_witness:
  "sample \<noteq> [] \<and> winsorize sample (1/20) (1/20) = Inr sample_w \<and>
   winsorize sample_w (1/20) (1/20) = Inr sample_w \<and> sample_w \<noteq> sample"
proof -
  have "sample \<noteq> []" "sample_w \<noteq> sample"
    by (simp_all add: sample_def sample_w_def)
  then show ?thesis
    using winsorize_idempotent[of sample sample_w] winsorize_sample by blast
qed

section \<open>Winsorize on a table\<close>

lemma map_of_set_column_other:
  "nm \<noteq> col \<Longrightarrow> map_of (set_column T col c) nm = map_of T nm"
  by (induction T) (auto simp: set_column_def)

lemma clip_column_NumCol:
  "xs \<noteq> [] \<Longrightarrow> winsorize xs (1/20) (1/20) = Inr ys \<Longrightarrow> NumCol ys = clip_column (NumCol xs)"
  using winsorize_clip[of xs] by (simp add: clip_column_def)

lemma winsorize_loop_clips:
  assumes "distinct (columns T)" and "distinct cols"
    and "\<forall>col\<in>set cols. \<exists>xs. map_of T col = Some (NumCol xs) \<and> xs \<noteq> []"
  shows "winsorize_loop cols T =
         Inr (map (\<lambda>(nm, c). if nm \<in> set cols then (nm, clip_column c) else (nm, c)) T)"
  using assms
proof (induction cols arbitrary: T)
  case Nil
  then show ?case by (simp add: case_prod_unfold)
next
  case (Cons col cols)
  from Cons.prems(3) obtain xs where xs: "map_of T col = Some (NumCol xs)" "xs \<noteq> []"
    by auto
  obtain ys where ys: "winsorize xs (1/20) (1/20) = Inr ys"
    using winsorize_clip[OF xs(2)] by simp
  have cc: "NumCol ys = clip_column (NumCol xs)"
    by (rule clip_column_NumCol[OF xs(2) ys])
  let ?T1 = "set_column T col (NumCol ys)"
  have d1: "distinct (columns ?T1)"
    using Cons.prems(1) by (simp add: columns_set_column)
  have d2: "distinct cols" and notin: "col \<notin> set cols"
    using Cons.prems(2) by simp_all
  have p3: "\<forall>c\<in>set cols. \<exists>zs. map_of ?T1 c = Some (NumCol zs) \<and> zs \<noteq> []"
  proof
    fix c assume c: "c \<in> set cols"
    then have "c \<noteq> col" using notin by auto
    then have "map_of ?T1 c = map_of T c"
      by (rule map_of_set_column_other)
    then show "\<exists>zs. map_of ?T1 c = Some (NumCol zs) \<and> zs \<noteq> []"
      using Cons.prems(3) c by simp
  qed
  have "winsorize_loop (col # cols) T = winsorize_loop cols ?T1"
    by (simp add: xs ys)
  also have "\<dots> = Inr (map (\<lambda>(nm, c). if nm \<in> set cols then (nm, clip_column c) else (nm, c)) ?T1)"
    by (rule Cons.IH[OF d1 d2 p3])
  also have "map (\<lambda>(nm, c). if nm \<in> set cols then (nm, clip_column c) else (nm, c)) ?T1
      = map (\<lambda>(nm, c). if nm \<in> set (col # cols) then (nm, clip_column c) else (nm, c)) T"
    unfolding set_column_def map_map
  proof (rule map_cong[OF refl])
    fix p assume p: "p \<in> set T"
    obtain nm c where pc: "p = (nm, c)" by (cases p) auto
    show "((\<lambda>(nm, c). if nm \<in> set cols then (nm, clip_column c) else (nm, c)) \<circ>
           (\<lambda>(nm, old). if nm = col then (nm, NumCol ys) else (nm, old))) p
          = (case p of (nm, c) \<Rightarrow> if nm \<in> set (col # cols) then (nm, clip_column c) else (nm, c))"
    proof (cases "nm = col")
      case True
      have "map_of T nm = Some c"
        using p pc Cons.prems(1) by (simp add: columns_def)
      then have "c = NumCol xs" using xs(1) True by simp
      then show ?thesis using True notin pc cc by simp
    next
      case False
      then show ?thesis using pc by simp
    qed
  qed
  finally show ?case .
qed

lemma numeric_columns_mem:
  "(nm \<in> set (numeric_columns T)) = (\<exists>xs. (nm, NumCol xs) \<in> set T)"
  unfolding numeric_columns_def
  by (force split: column.splits)

lemma winsorize_table_clips:
  assumes "distinct (columns T)" and "rectangular T" and "0 < nrows T"
  shows "winsorize_table T = Inr (map (\<lambda>(nm, c). (nm, clip_column c)) T)"
proof -
  have d: "distinct (numeric_columns T)"
    using assms(1) unfolding numeric_columns_def columns_def by (rule distinct_map_filter)
  have p: "\<forall>col\<in>set (numeric_columns T). \<exists>xs. map_of T col = Some (NumCol xs) \<and> xs \<noteq> []"
  proof
    fix col assume "col \<in> set (numeric_columns T)"
    then obtain xs where m: "(col, NumCol xs) \<in> set T"
      by (auto simp: numeric_columns_mem)
    then have "map_of T col = Some (NumCol xs)"
      using assms(1) by (simp add: columns_def)
    moreover have "col_len (NumCol xs) = nrows T"
      using m assms(2) by (auto simp: rectangular_def list_all_iff)
    then have "xs \<noteq> []"
      using assms(3) by (auto simp: col_len_def)
    ultimately show "\<exists>xs. map_of T col = Some (NumCol xs) \<and> xs \<noteq> []" by blast
  qed
  have "winsorize_table T = Inr (map (\<lambda>(nm, c).
          if nm \<in> set (numeric_columns T) then (nm, clip_column c) else (nm, c)) T)"
    unfolding winsorize_table_def by (rule winsorize_loop_clips[OF assms(1) d p])
  also have "map (\<lambda>(nm, c). if nm \<in> set (numeric_columns T) then (nm, clip_column c) else (nm, c)) T
      = map (\<lambda>(nm, c). (nm, clip_column c)) T"
  proof (rule map_cong[OF refl])
    fix p assume p: "p \<in> set T"
    obtain nm c where pc: "p = (nm, c)" by (cases p) auto
    show "(case p of (nm, c) \<Rightarrow> if nm \<in> set (numeric_columns T) then (nm, clip_column c) else (nm, c))
          = (case p of (nm, c) \<Rightarrow> (nm, clip_column c))"
    proof (cases c)
      case (NumCol xs)
      then have "nm \<in> set (numeric_columns T)"
        using p pc by (auto simp: numeric_columns_mem)
      then show ?thesis using pc by simp
    next
      case (ObjCol ys)
      then show ?thesis using pc by (simp add: clip_column_def)
    qed
  qed
  finally show ?thesis .
qed


lemma col_len_clip_column: "col_len (clip_column c) = col_len c"
  by (cases c) (simp_all add: clip_column_def col_len_def)

lemma nrows_clip_columns: "nrows (map (\<lambda>(nm, c). (nm, clip_column c)) T) = nrows T"
  by (cases T) (auto simp: nrows_def col_len_clip_column)

lemma columns_clip_columns: "columns (map (\<lambda>(nm, c). (nm, clip_column c)) T) = columns T"
  by (simp add: columns_def case_prod_unfold comp_def)

text \<open>
  Claim C4, amended. For every table with at least one row (columns of one length,
  under distinct names), the winsorize policy at the limits 5%/5% returns the table in which every numeric column is clipped, independently
  of the other columns, between two of its own entries: with the \<open>n\<close> entries of the
  column sorted (NaN last), the entry at position \<open>n div 20\<close> and the entry at position
  \<open>n - 1 - n div 20\<close>; entries below the first are raised to it, entries above the second
  are lowered to it. Every non-numeric column is unchanged. The result is a function of
  the column's entries alone, and it has the column names and the row count of the input.
\<close>

theorem winsorize_table_clips_columns:
  assumes "distinct (columns T)" and "rectangular T" and "0 < nrows T"
  shows "\<exists>T'. winsorize_table T = Inr T' \<and>
           T' = map (\<lambda>(nm, c). (nm, clip_column c)) T \<and>
           columns T' = columns T \<and> nrows T' = nrows T"
  using winsorize_table_clips[OF assms] nrows_clip_columns[of T] columns_clip_columns[of T]
  by simp

lemma survey_wf: "distinct (columns survey)" "rectangular survey" "0 < nrows survey"
  by (simp_all add: survey_def columns_def rectangular_def nrows_def col_len_def sample_def)

lemma winsorize_survey:
  "winsorize_table survey =
     Inr [(''who'', ObjCol (replicate 22 (Some ''r''))), (''score'', NumCol sample_w)]"
  by code_simp

text \<open>The theorem at the table \<open>survey\<close>, with one column of text and one of numbers.\<close>

theorem winsorize_table_clips_columns_witness:
  "distinct (columns survey) \<and> rectangular survey \<and> 0 < nrows survey \<and>
   (\<exists>T'. winsorize_table survey = Inr T' \<and>
      T' = map (\<lambda>(nm, c). (nm, clip_column c)) survey \<and>
      columns T' = columns survey \<and> nrows T' = nrows survey)"
  using winsorize_table_clips_columns[OF survey_wf] survey_wf
  by blast

text \<open>
  Claim C4 as stated fails in two ways. On a table without rows winsorize raises
  IndexError, so no table of the same row count is returned. And with the percentiles
  computed as the quartiles of the IQR step are (linear interpolation), the 95th
  percentile of the column of \<open>readings\<close> is 5.5, yet winsorize leaves the entry 10 as
  it is: with 11 entries, \<open>11 div 20 = 0\<close> entries are replaced at either end.
\<close>

theorem winsorize_counterexample:
  "winsorize_table no_rows = Inl IndexError \<and>
   winsorize_table readings = Inr readings \<and>
   quantile (19/20) [Val 0, Val 0, Val 0, Val 0, Val 0, Val 0, Val 0, Val 0, Val 1, Val 1, Val 10]
     = Val (11/2) \<and>
   np_lt (Val (11/2)) (Val 10)"
  by code_simp

end
